theory Spec2Isabelle
  imports Main "HOL-Library.Word"
begin

unbundle bit_operations_syntax

section \<open>The camera capture engine of \<^verbatim>\<open>camera_driver.c\<close>\<close>

text \<open>
  The driver is a V4L2 capture driver on top of the kernel's videobuf2 framework.  Its
  functions are embedded one by one: a C function that writes through a pointer returns
  the written object next to its \<^verbatim>\<open>int\<close> return code, and the device structure is passed
  in and returned.  The kernel's \<^verbatim>\<open>u32\<close> and \<^verbatim>\<open>unsigned int\<close> are 32-bit words.
\<close>

type_synonym u32 = "32 word"

subsection \<open>Constants and kernel macros\<close>

definition MAX_BUFFERS :: u32 where
  "MAX_BUFFERS = 4"

definition MIN_BUFFERS :: u32 where
  "MIN_BUFFERS = 2"

text \<open>The error numbers of \<^verbatim>\<open>errno.h\<close>; the driver returns them negated.\<close>

definition EBUSY :: int where
  "EBUSY = 16"

definition EINVAL :: int where
  "EINVAL = 22"

text \<open>
  \<^verbatim>\<open>v4l2_fourcc(a, b, c, d)\<close> of \<^verbatim>\<open>videodev2.h\<close> packs four characters into a
  \<^verbatim>\<open>u32\<close>, the first in the low byte.
\<close>

definition v4l2_fourcc :: "char \<Rightarrow> char \<Rightarrow> char \<Rightarrow> char \<Rightarrow> u32" where
  "v4l2_fourcc a b c d =
     of_char a OR push_bit 8 (of_char b) OR push_bit 16 (of_char c) OR push_bit 24 (of_char d)"

definition V4L2_PIX_FMT_MJPEG :: u32 where
  "V4L2_PIX_FMT_MJPEG = v4l2_fourcc CHR ''M'' CHR ''J'' CHR ''P'' CHR ''G''"

definition V4L2_PIX_FMT_YUYV :: u32 where
  "V4L2_PIX_FMT_YUYV = v4l2_fourcc CHR ''Y'' CHR ''U'' CHR ''Y'' CHR ''V''"

text \<open>A pixel format of \<^verbatim>\<open>videodev2.h\<close> that the driver does not support.\<close>

definition V4L2_PIX_FMT_RGB24 :: u32 where
  "V4L2_PIX_FMT_RGB24 = v4l2_fourcc CHR ''R'' CHR ''G'' CHR ''B'' CHR ''3''"

definition V4L2_FIELD_NONE :: u32 where
  "V4L2_FIELD_NONE = 1"

definition V4L2_COLORSPACE_SRGB :: u32 where
  "V4L2_COLORSPACE_SRGB = 8"

definition V4L2_BUF_TYPE_VIDEO_CAPTURE :: u32 where
  "V4L2_BUF_TYPE_VIDEO_CAPTURE = 1"

text \<open>
  The kernel's \<^verbatim>\<open>clamp(val, lo, hi)\<close> is \<^verbatim>\<open>min(max(val, lo), hi)\<close>, and
  \<^verbatim>\<open>ALIGN(x, a)\<close> is \<^verbatim>\<open>(x + (a - 1)) & ~(a - 1)\<close>, both in the type of the first
  argument, here unsigned 32-bit.
\<close>

definition clamp :: "u32 \<Rightarrow> u32 \<Rightarrow> u32 \<Rightarrow> u32" where
  "clamp val lo hi = min (max val lo) hi"

definition ALIGN :: "u32 \<Rightarrow> u32 \<Rightarrow> u32" where
  "ALIGN x a = (x + (a - 1)) AND NOT (a - 1)"

subsection \<open>Data\<close>

datatype camera_state =
    CAMERA_STATE_DISCONNECTED
  | CAMERA_STATE_CONNECTED
  | CAMERA_STATE_STREAMING
  | CAMERA_STATE_ERROR

text \<open>
  The fields of \<^verbatim>\<open>struct v4l2_pix_format\<close> and \<^verbatim>\<open>struct v4l2_format\<close> that the driver
  reads or writes.
\<close>

record v4l2_pix_format =
  width :: u32
  height :: u32
  pixelformat :: u32
  field :: u32
  bytesperline :: u32
  sizeimage :: u32
  colorspace :: u32

record v4l2_format =
  type :: u32
  pix :: v4l2_pix_format

subsection \<open>Format negotiation\<close>

text \<open>
  \<^verbatim>\<open>camera_try_fmt\<close> rewrites the caller's descriptor in place and returns 0.  The steps
  are those of the source, in its order: coerce the pixel format, clamp, align, compute
  the line and image sizes, set field and colour space.
\<close>

definition camera_try_fmt :: "v4l2_format \<Rightarrow> int \<times> v4l2_format" where
  "camera_try_fmt f =
     (let p0 = pix f;
          p1 = (if pixelformat p0 \<noteq> V4L2_PIX_FMT_MJPEG \<and> pixelformat p0 \<noteq> V4L2_PIX_FMT_YUYV
                then p0\<lparr>pixelformat := V4L2_PIX_FMT_MJPEG\<rparr> else p0);
          p2 = p1\<lparr>width := clamp (width p1) 160 1280\<rparr>;
          p3 = p2\<lparr>height := clamp (height p2) 120 720\<rparr>;
          p4 = p3\<lparr>width := ALIGN (width p3) 16\<rparr>;
          p5 = p4\<lparr>height := ALIGN (height p4) 2\<rparr>;
          p6 = (if pixelformat p5 = V4L2_PIX_FMT_YUYV
                then (let q = p5\<lparr>bytesperline := width p5 * 2\<rparr>
                      in q\<lparr>sizeimage := bytesperline q * height q\<rparr>)
                else (let q = p5\<lparr>bytesperline := 0\<rparr>
                      in q\<lparr>sizeimage := width q * height q\<rparr>));
          p7 = p6\<lparr>field := V4L2_FIELD_NONE\<rparr>;
          p8 = p7\<lparr>colorspace := V4L2_COLORSPACE_SRGB\<rparr>
      in (0, f\<lparr>pix := p8\<rparr>))"

subsection \<open>The device\<close>

text \<open>
  \<^verbatim>\<open>struct camera_device\<close> as \<^verbatim>\<open>camera_driver.c\<close> declares it, reduced to the fields
  its operations touch.  The videobuf2 queue belongs to the kernel framework: its type is
  the parameter \<open>'q\<close>, and the two framework functions the driver calls on it,
  \<^verbatim>\<open>vb2_is_busy\<close> and \<^verbatim>\<open>vb2_buffer_done\<close>, are parameters of the operations that call
  them.  \<open>'b\<close> is the type of buffer handles; \<^verbatim>\<open>buf_list\<close> is the driver's list of
  buffers queued to it and not yet completed, oldest first.  The statistics counters are
  \<^verbatim>\<open>atomic_t\<close>, that is \<^verbatim>\<open>int\<close>; the driver only ever stores 0 in them.  The file
  does not include \<^verbatim>\<open>camera_driver.h\<close>, whose larger \<^verbatim>\<open>struct camera_device\<close> no code
  uses.
\<close>

record ('q, 'b) camera_device =
  state :: camera_state
  queue :: 'q
  buf_list :: "'b list"
  format :: v4l2_format
  frames_received :: int
  frames_dropped :: int

text \<open>The buffer states of videobuf2 that a driver passes to \<^verbatim>\<open>vb2_buffer_done\<close>.\<close>

datatype vb2_buffer_state =
    VB2_BUF_STATE_QUEUED
  | VB2_BUF_STATE_DONE
  | VB2_BUF_STATE_ERROR

definition camera_g_fmt :: "('q, 'b) camera_device \<Rightarrow> int \<times> v4l2_format" where
  "camera_g_fmt dev = (0, format dev)"

text \<open>
  \<^verbatim>\<open>camera_s_fmt\<close> returns the return code, the device and the caller's descriptor.  The
  only test before negotiation is \<^verbatim>\<open>vb2_is_busy(&dev->queue)\<close>.
\<close>

definition camera_s_fmt ::
  "('q \<Rightarrow> bool) \<Rightarrow> ('q, 'b) camera_device \<Rightarrow> v4l2_format
     \<Rightarrow> int \<times> ('q, 'b) camera_device \<times> v4l2_format" where
  "camera_s_fmt vb2_is_busy dev f =
     (if vb2_is_busy (queue dev) then (- EBUSY, dev, f)
      else (let (ret, f') = camera_try_fmt f
            in if ret \<noteq> 0 then (ret, dev, f')
               else (0, dev\<lparr>format := f'\<rparr>, f')))"

subsection \<open>Buffer queue operations\<close>

text \<open>
  \<^verbatim>\<open>camera_queue_setup\<close> reads the device's image size and writes \<^verbatim>\<open>*nbuffers\<close>,
  \<^verbatim>\<open>*nplanes\<close> and \<^verbatim>\<open>sizes[0]\<close>; the array \<^verbatim>\<open>sizes\<close> is a function from the plane
  number.  When \<^verbatim>\<open>*nplanes\<close> is not zero it returns at once, after comparing
  \<^verbatim>\<open>sizes[0]\<close> with the image size.
\<close>

definition camera_queue_setup ::
  "('q, 'b) camera_device \<Rightarrow> u32 \<Rightarrow> u32 \<Rightarrow> (nat \<Rightarrow> u32)
     \<Rightarrow> int \<times> u32 \<times> u32 \<times> (nat \<Rightarrow> u32)" where
  "camera_queue_setup dev nbuffers nplanes sizes =
     (let size = sizeimage (pix (format dev))
      in if nplanes \<noteq> 0
         then (if sizes 0 < size then - EINVAL else 0, nbuffers, nplanes, sizes)
         else (let nplanes1 = 1;
                   sizes1 = sizes(0 := size);
                   nbuffers1 = (if nbuffers < MIN_BUFFERS then MIN_BUFFERS else nbuffers);
                   nbuffers2 = (if nbuffers1 > MAX_BUFFERS then MAX_BUFFERS else nbuffers1)
               in (0, nbuffers2, nplanes1, sizes1)))"

text \<open>\<^verbatim>\<open>camera_buf_queue\<close>: \<^verbatim>\<open>list_add_tail\<close> on the driver's buffer list.\<close>

definition camera_buf_queue :: "('q, 'b) camera_device \<Rightarrow> 'b \<Rightarrow> ('q, 'b) camera_device" where
  "camera_buf_queue dev buf = dev\<lparr>buf_list := buf_list dev @ [buf]\<rparr>"

text \<open>
  The two USB placeholders of the source: \<^verbatim>\<open>camera_init_streaming\<close> returns 0 and
  \<^verbatim>\<open>camera_stop_usb_streaming\<close> has an empty body.
\<close>

definition camera_init_streaming :: "('q, 'b) camera_device \<Rightarrow> int" where
  "camera_init_streaming dev = 0"

definition camera_stop_usb_streaming :: "('q, 'b) camera_device \<Rightarrow> ('q, 'b) camera_device" where
  "camera_stop_usb_streaming dev = dev"

definition camera_start_streaming ::
  "('q, 'b) camera_device \<Rightarrow> u32 \<Rightarrow> int \<times> ('q, 'b) camera_device" where
  "camera_start_streaming dev count =
     (let ret = camera_init_streaming dev
      in if ret \<noteq> 0 then (ret, dev)
         else (0, dev\<lparr>state := CAMERA_STATE_STREAMING,
                         frames_received := 0,
                         frames_dropped := 0\<rparr>))"

text \<open>
  \<^verbatim>\<open>camera_return_all_buffers\<close>: the \<^verbatim>\<open>list_for_each_entry_safe\<close> loop takes the entry
  at the head of the list, unlinks it and hands it to \<^verbatim>\<open>vb2_buffer_done\<close> with the given
  state, until the list is empty.
\<close>

function camera_return_all_buffers ::
  "('b \<Rightarrow> vb2_buffer_state \<Rightarrow> 'q \<Rightarrow> 'q) \<Rightarrow> ('q, 'b) camera_device \<Rightarrow> vb2_buffer_state
     \<Rightarrow> ('q, 'b) camera_device" where
  "camera_return_all_buffers vb2_buffer_done dev st =
     (case buf_list dev of
        [] \<Rightarrow> dev
      | buf # rest \<Rightarrow>
          camera_return_all_buffers vb2_buffer_done
            (dev\<lparr>buf_list := rest, queue := vb2_buffer_done buf st (queue dev)\<rparr>) st)"
  by pat_completeness auto
termination
  by (relation "measure (\<lambda>(d, dev, st). length (buf_list dev))") auto

declare camera_return_all_buffers.simps [simp del]

definition camera_stop_streaming ::
  "('b \<Rightarrow> vb2_buffer_state \<Rightarrow> 'q \<Rightarrow> 'q) \<Rightarrow> ('q, 'b) camera_device \<Rightarrow> ('q, 'b) camera_device" where
  "camera_stop_streaming vb2_buffer_done dev =
     (let dev1 = camera_stop_usb_streaming dev;
          dev2 = camera_return_all_buffers vb2_buffer_done dev1 VB2_BUF_STATE_ERROR
      in dev2\<lparr>state := CAMERA_STATE_CONNECTED\<rparr>)"

subsection \<open>A device to run the operations on\<close>

text \<open>
  To evaluate the operations on concrete devices the queue is instantiated by a record of
  what the driver's calls can observe of it: the number of buffers allocated on the queue,
  with \<^verbatim>\<open>vb2_is_busy(q)\<close> being \<^verbatim>\<open>q->num_buffers > 0\<close> as in \<^verbatim>\<open>videobuf2-core.h\<close>, and
  the buffers handed back through \<^verbatim>\<open>vb2_buffer_done\<close>, in the order of the calls.
  Buffers are named by their index.  The general theorems below do not depend on this
  instance.
\<close>

record vb2_queue =
  num_buffers :: nat
  done_list :: "(nat \<times> vb2_buffer_state) list"

definition vb2_is_busy :: "vb2_queue \<Rightarrow> bool" where
  "vb2_is_busy q = (num_buffers q > 0)"

definition vb2_buffer_done :: "nat \<Rightarrow> vb2_buffer_state \<Rightarrow> vb2_queue \<Rightarrow> vb2_queue" where
  "vb2_buffer_done vb st q = q\<lparr>done_list := done_list q @ [(vb, st)]\<rparr>"

text \<open>
  The device a successful \<^verbatim>\<open>camera_probe\<close> leaves: zeroed by \<^verbatim>\<open>kzalloc\<close>, state
  \<^verbatim>\<open>CAMERA_STATE_CONNECTED\<close>, an empty buffer list, and the default format that
  \<^verbatim>\<open>camera_create_video_device\<close> stores (640x480 MJPEG; the sizes stay zero).
\<close>

definition probed_device :: "(vb2_queue, nat) camera_device" where
  "probed_device =
     \<lparr>state = CAMERA_STATE_CONNECTED,
      queue = \<lparr>num_buffers = 0, done_list = []\<rparr>,
      buf_list = [],
      format = \<lparr>type = V4L2_BUF_TYPE_VIDEO_CAPTURE,
                pix = \<lparr>width = 640, height = 480, pixelformat = V4L2_PIX_FMT_MJPEG,
                       field = V4L2_FIELD_NONE, bytesperline = 0, sizeimage = 0,
                       colorspace = V4L2_COLORSPACE_SRGB\<rparr>\<rparr>,
      frames_received = 0,
      frames_dropped = 0\<rparr>"

text \<open>
  A descriptor as a caller fills it before \<^verbatim>\<open>VIDIOC_S_FMT\<close> (the repository's
  \<^verbatim>\<open>camera_test.c\<close> does so): zeroed, then type, width, height, pixel format and field.
\<close>

definition request :: "u32 \<Rightarrow> u32 \<Rightarrow> u32 \<Rightarrow> v4l2_format" where
  "request w h pf =
     \<lparr>type = V4L2_BUF_TYPE_VIDEO_CAPTURE,
      pix = \<lparr>width = w, height = h, pixelformat = pf, field = V4L2_FIELD_NONE,
             bytesperline = 0, sizeimage = 0, colorspace = 0\<rparr>\<rparr>"

text \<open>
  The probed device after \<open>n\<close> buffers were allocated on its queue and all of them were
  handed to the driver with \<^verbatim>\<open>camera_buf_queue\<close>, in index order.
\<close>

definition device_with_buffers :: "nat \<Rightarrow> (vb2_queue, nat) camera_device" where
  "device_with_buffers n =
     fold (\<lambda>buf dev. camera_buf_queue dev buf) [0..<n]
       (probed_device\<lparr>queue := \<lparr>num_buffers = n, done_list = []\<rparr>\<rparr>)"

subsection \<open>The devices the driver can receive\<close>

text \<open>
  Modelled from the spec: every operation above but \<^verbatim>\<open>camera_probe\<close> is a static function
  that is reached only through the tables \<^verbatim>\<open>camera_ioctl_ops\<close> and \<^verbatim>\<open>camera_vb2_ops\<close>,
  that is through the videobuf2 core, which is not part of the repository.  A control
  step is one call that the core makes on the device, under the conditions the control
  surface of the specification gives: \<^verbatim>\<open>set_format\<close> at any time; \<^verbatim>\<open>request_buffers\<close>,
  refused while \<^verbatim>\<open>Streaming\<close> (section 4.1), after which the queue holds at most the count
  that \<^verbatim>\<open>camera_queue_setup\<close> returned, or none after a release; \<^verbatim>\<open>queue_buffer\<close> for a
  buffer that is allocated; \<^verbatim>\<open>start\<close>, refused when the queue has no buffer (section
  4.4); and \<^verbatim>\<open>stop\<close>.  The conditions are no narrower than those of the core, so every
  device the driver can be called on is among the receivable ones.
\<close>

inductive control_step ::
  "(vb2_queue, nat) camera_device \<Rightarrow> (vb2_queue, nat) camera_device \<Rightarrow> bool" where
  set_format:
    "control_step dev (fst (snd (camera_s_fmt vb2_is_busy dev f)))"
| request_buffers:
    "state dev \<noteq> CAMERA_STATE_STREAMING \<Longrightarrow>
     n \<le> unat (fst (snd (camera_queue_setup dev count 0 sizes))) \<Longrightarrow>
     control_step dev (dev\<lparr>queue := (queue dev)\<lparr>num_buffers := n\<rparr>\<rparr>)"
| queue_buffer:
    "buf < num_buffers (queue dev) \<Longrightarrow> control_step dev (camera_buf_queue dev buf)"
| start_streaming:
    "vb2_is_busy (queue dev) \<Longrightarrow>
     control_step dev (snd (camera_start_streaming dev count))"
| stop_streaming:
    "control_step dev (camera_stop_streaming vb2_buffer_done dev)"

text \<open>
  Modelled from the spec: the receivable devices are the device a successful probe leaves
  and every device a control step makes of a receivable one.
\<close>

inductive receivable :: "(vb2_queue, nat) camera_device \<Rightarrow> bool" where
  probe: "receivable probed_device"
| step: "receivable dev \<Longrightarrow> control_step dev dev' \<Longrightarrow> receivable dev'"

section \<open>The frame assembler in YUYV mode\<close>

text \<open>
  Modelled from the spec: the completion path, that is \<^verbatim>\<open>camera_urb_complete\<close> and the
  frame assembly behind it, is declared in \<^verbatim>\<open>camera_driver.h\<close> and implemented nowhere in
  the repository (\<^verbatim>\<open>camera_init_streaming\<close> is a placeholder).  The definitions of this
  section follow the words of the specification: the buffer of section 3, the BufferPool
  operations of section 4.1, the YUYV mode of section 4.2 and the backpressure rule of
  section 5.  Time stamps are left out.
\<close>

text \<open>Modelled from the spec: the states of a buffer (section 3).\<close>

datatype buffer_state = Free | Queued | Filling | Ready | Error

text \<open>
  Modelled from the spec: a buffer (section 3) with its index, the fixed capacity of its
  storage, the bytes written to the storage so far, \<^verbatim>\<open>bytes_filled\<close>, its state and its
  sequence number.  The state is the field \<open>bstate\<close>, since \<open>state\<close> is the field of the
  device.
\<close>

record buffer =
  index :: nat
  capacity :: nat
  storage :: "8 word list"
  bytes_filled :: nat
  bstate :: buffer_state
  sequence :: nat

text \<open>
  Modelled from the spec: the assembler with the BufferPool's table of buffers, the FIFO of
  \<^verbatim>\<open>Ready\<close> buffers (by position in the table), the \<^verbatim>\<open>image_size_bytes\<close> of the active
  format, the sequence number of the next frame, and the statistics counters that sections
  4.1 and 4.2 say are updated, prefixed with \<open>stats\<close> to keep them apart from the
  counters of the device.
\<close>

record frame_assembler =
  pool :: "buffer list"
  ready_queue :: "nat list"
  image_size_bytes :: nat
  next_sequence :: nat
  stats_frames_received :: nat
  stats_frames_dropped :: nat
  stats_bytes_received :: nat

text \<open>Modelled from the spec: the position of the first buffer of the table in a given state.\<close>

fun find_state :: "buffer_state \<Rightarrow> buffer list \<Rightarrow> nat option" where
  "find_state s [] = None"
| "find_state s (b # bs) = (if bstate b = s then Some 0 else map_option Suc (find_state s bs))"

text \<open>
  Modelled from the spec: \<^verbatim>\<open>acquire_free\<close> (section 4.1) returns a \<^verbatim>\<open>Free\<close> buffer
  transitioned to \<^verbatim>\<open>Filling\<close>, or \<^verbatim>\<open>None\<close> if the pool is exhausted.  The buffer starts
  the next frame empty.
\<close>

definition acquire_free :: "frame_assembler \<Rightarrow> nat option \<times> frame_assembler" where
  "acquire_free a =
     (case find_state Free (pool a) of
        None \<Rightarrow> (None, a)
      | Some i \<Rightarrow>
          (Some i,
           a\<lparr>pool := (pool a)[i := (pool a ! i)\<lparr>storage := [], bytes_filled := 0,
                                                bstate := Filling\<rparr>]\<rparr>))"

text \<open>
  Modelled from the spec: \<^verbatim>\<open>mark_ready\<close> (section 4.1) transitions \<^verbatim>\<open>Filling\<close> to
  \<^verbatim>\<open>Ready\<close>, appends the buffer to the FIFO and increments \<^verbatim>\<open>frames_received\<close> and
  \<^verbatim>\<open>bytes_received\<close>; it rejects, counting a dropped frame, if \<^verbatim>\<open>bytes_filled\<close> exceeds
  the capacity of the buffer.
\<close>

definition mark_ready :: "nat \<Rightarrow> nat \<Rightarrow> nat \<Rightarrow> frame_assembler \<Rightarrow> frame_assembler" where
  "mark_ready i n seq a =
     (if capacity (pool a ! i) < n
      then a\<lparr>stats_frames_dropped := stats_frames_dropped a + 1\<rparr>
      else a\<lparr>pool := (pool a)[i := (pool a ! i)\<lparr>bytes_filled := n, bstate := Ready,
                                                  sequence := seq\<rparr>],
             ready_queue := ready_queue a @ [i],
             stats_frames_received := stats_frames_received a + 1,
             stats_bytes_received := stats_bytes_received a + n\<rparr>)"

text \<open>
  Modelled from the spec: the YUYV mode of section 4.2 on the buffer \<open>i\<close> that is in
  \<^verbatim>\<open>Filling\<close>.  The span is appended; a span that would overflow \<^verbatim>\<open>image_size_bytes\<close> is
  truncated to the remaining space and counted as a dropped-frame event.  When
  \<^verbatim>\<open>bytes_filled\<close> equals \<^verbatim>\<open>image_size_bytes\<close> the buffer is marked \<^verbatim>\<open>Ready\<close> at once
  and a new \<^verbatim>\<open>Filling\<close> buffer is acquired for the next frame.
\<close>

definition yuyv_append :: "nat \<Rightarrow> 8 word list \<Rightarrow> frame_assembler \<Rightarrow> frame_assembler" where
  "yuyv_append i span a =
     (let b = pool a ! i;
          room = image_size_bytes a - bytes_filled b;
          taken = take room span;
          a1 = (if room < length span
                then a\<lparr>stats_frames_dropped := stats_frames_dropped a + 1\<rparr> else a);
          b1 = b\<lparr>storage := storage b @ taken, bytes_filled := bytes_filled b + length taken\<rparr>;
          a2 = a1\<lparr>pool := (pool a1)[i := b1]\<rparr>
      in if bytes_filled b1 = image_size_bytes a2
         then (let a3 = mark_ready i (bytes_filled b1) (next_sequence a2) a2;
                   a4 = a3\<lparr>next_sequence := next_sequence a3 + 1\<rparr>
               in snd (acquire_free a4))
         else a2)"

text \<open>
  Modelled from the spec: one transfer completion delivers one span.  It goes to the buffer
  currently in \<^verbatim>\<open>Filling\<close>; if there is none, one is acquired, and if the pool has no
  \<^verbatim>\<open>Free\<close> buffer the span is dropped and counted (section 5, backpressure).
\<close>

definition yuyv_feed :: "8 word list \<Rightarrow> frame_assembler \<Rightarrow> frame_assembler" where
  "yuyv_feed span a =
     (case find_state Filling (pool a) of
        Some i \<Rightarrow> yuyv_append i span a
      | None \<Rightarrow>
          (case acquire_free a of
             (Some i, a1) \<Rightarrow> yuyv_append i span a1
           | (None, a1) \<Rightarrow> a1\<lparr>stats_frames_dropped := stats_frames_dropped a1 + 1\<rparr>))"

text \<open>
  Modelled from the spec: the assembler after \<^verbatim>\<open>request_buffers\<close> created \<open>n\<close> buffers
  of \<open>sz\<close> bytes, all \<^verbatim>\<open>Free\<close>, with zeroed statistics.
\<close>

definition new_assembler :: "nat \<Rightarrow> nat \<Rightarrow> frame_assembler" where
  "new_assembler n sz =
     \<lparr>pool = map (\<lambda>i. \<lparr>index = i, capacity = sz, storage = [], bytes_filled = 0,
                         bstate = Free, sequence = 0\<rparr>) [0..<n],
      ready_queue = [],
      image_size_bytes = sz,
      next_sequence = 0,
      stats_frames_received = 0,
      stats_frames_dropped = 0,
      stats_bytes_received = 0\<rparr>"

section \<open>The completion path\<close>






section \<open>Auxiliary facts\<close>

subsection \<open>Word arithmetic of clamping and alignment\<close>

lemma and_not_mask_push: "(x::u32) AND NOT (mask n) = push_bit n (drop_bit n x)"
  by (rule bit_eqI) (auto simp add: bit_simps)

lemma and_not_mask_sub: "(x::u32) AND NOT (mask n) = x - take_bit n x"
proof -
  have "push_bit n (drop_bit n x) + take_bit n x = x" by (rule bits_ident)
  then have "push_bit n (drop_bit n x) = x - take_bit n x" by (simp add: algebra_simps)
  then show ?thesis by (simp add: and_not_mask_push)
qed

lemma take_bit_le_self: "take_bit n (x::u32) \<le> x"
  by (simp add: unsigned_take_bit_eq word_le_nat_alt)

lemma unat_and_not_mask: "unat ((x::u32) AND NOT (mask n)) = unat x - unat x mod 2 ^ n"
proof -
  have "unat (x - take_bit n x) = unat x - unat (take_bit n x)"
    by (rule unat_sub) (rule take_bit_le_self)
  also have "unat (take_bit n x) = unat x mod 2 ^ n"
    by (subst unsigned_take_bit_eq) (rule take_bit_eq_mod)
  finally show ?thesis by (simp only: and_not_mask_sub)
qed

lemma unat_clamp: "unat (clamp v lo hi) = min (max (unat v) (unat lo)) (unat hi)"
  by (simp add: clamp_def max_def min_def word_le_nat_alt)

lemma unat_ALIGN_16: 
  assumes "unat x \<le> 1280"
  shows "unat (ALIGN x 16) = (unat x + 15) div 16 * 16"
proof -
  have m: "(15::u32) = mask 4" by (simp add: mask_eq_exp_minus_1)
  have "unat (x + 15) = unat x + 15" using assms by (simp add: unat_word_ariths)
  moreover have "ALIGN x 16 = (x + 15) AND NOT (mask 4)" by (simp add: ALIGN_def m)
  ultimately have "unat (ALIGN x 16) = (unat x + 15) - (unat x + 15) mod 16"
    by (simp add: unat_and_not_mask)
  then show ?thesis by presburger
qed

lemma unat_ALIGN_2: 
  assumes "unat x \<le> 720"
  shows "unat (ALIGN x 2) = (unat x + 1) div 2 * 2"
proof -
  have m: "NOT (1::u32) = NOT (mask 1)" by simp
  have "unat (x + 1) = unat x + 1" using assms by (simp add: unat_word_ariths)
  moreover have "ALIGN x 2 = (x + 1) AND NOT (mask 1)" by (simp only: ALIGN_def m) simp
  ultimately have "unat (ALIGN x 2) = (unat x + 1) - (unat x + 1) mod 2"
    by (simp only: unat_and_not_mask) simp
  then show ?thesis by presburger
qed

lemma unat_negotiated_width:
  "unat (ALIGN (clamp w 160 1280) 16) = (min (max (unat w) 160) 1280 + 15) div 16 * 16"
proof -
  have "unat (clamp w 160 1280) \<le> 1280" by (simp add: unat_clamp)
  then show ?thesis by (simp add: unat_ALIGN_16 unat_clamp)
qed

lemma unat_negotiated_height:
  "unat (ALIGN (clamp h 120 720) 2) = (min (max (unat h) 120) 720 + 1) div 2 * 2"
proof -
  have "unat (clamp h 120 720) \<le> 720" by (simp add: unat_clamp)
  then show ?thesis by (simp add: unat_ALIGN_2 unat_clamp)
qed

lemma negotiated_width_range:
  "160 \<le> unat (ALIGN (clamp w 160 1280) 16)"
  "unat (ALIGN (clamp w 160 1280) 16) \<le> 1280"
  "16 dvd unat (ALIGN (clamp w 160 1280) 16)"
  unfolding unat_negotiated_width by presburger+

lemma negotiated_height_range:
  "120 \<le> unat (ALIGN (clamp h 120 720) 2)"
  "unat (ALIGN (clamp h 120 720) 2) \<le> 720"
  "2 dvd unat (ALIGN (clamp h 120 720) 2)"
  unfolding unat_negotiated_height by presburger+

lemma negotiated_width_fixed:
  assumes "160 \<le> unat w" "unat w \<le> 1280" "16 dvd unat w"
  shows "ALIGN (clamp w 160 1280) 16 = w"
proof -
  have "unat (ALIGN (clamp w 160 1280) 16) = unat w"
    unfolding unat_negotiated_width using assms by presburger
  then show ?thesis by (simp only: word_unat_eq_iff)
qed

lemma negotiated_height_fixed:
  assumes "120 \<le> unat h" "unat h \<le> 720" "2 dvd unat h"
  shows "ALIGN (clamp h 120 720) 2 = h"
proof -
  have "unat (ALIGN (clamp h 120 720) 2) = unat h"
    unfolding unat_negotiated_height using assms by presburger
  then show ?thesis by (simp only: word_unat_eq_iff)
qed

lemma pixfmt_neq:
  "V4L2_PIX_FMT_YUYV \<noteq> V4L2_PIX_FMT_MJPEG"
  "V4L2_PIX_FMT_MJPEG \<noteq> V4L2_PIX_FMT_YUYV"
  by (simp_all add: V4L2_PIX_FMT_YUYV_def V4L2_PIX_FMT_MJPEG_def v4l2_fourcc_def)

subsection \<open>The fields of a negotiated descriptor\<close>

lemma try_fmt_ret: "fst (camera_try_fmt f) = 0"
  by (simp add: camera_try_fmt_def Let_def)

lemma try_fmt_type: "type (snd (camera_try_fmt f)) = type f"
  by (simp add: camera_try_fmt_def Let_def)

lemma try_fmt_width: "width (pix (snd (camera_try_fmt f))) = ALIGN (clamp (width (pix f)) 160 1280) 16"
  by (simp add: camera_try_fmt_def Let_def)

lemma try_fmt_height: "height (pix (snd (camera_try_fmt f))) = ALIGN (clamp (height (pix f)) 120 720) 2"
  by (simp add: camera_try_fmt_def Let_def)

lemma try_fmt_pixelformat: "pixelformat (pix (snd (camera_try_fmt f))) =
   (if pixelformat (pix f) = V4L2_PIX_FMT_YUYV then V4L2_PIX_FMT_YUYV else V4L2_PIX_FMT_MJPEG)"
  by (simp add: camera_try_fmt_def Let_def)

lemma try_fmt_bytesperline: "bytesperline (pix (snd (camera_try_fmt f))) =
   (if pixelformat (pix f) = V4L2_PIX_FMT_YUYV then ALIGN (clamp (width (pix f)) 160 1280) 16 * 2 else 0)"
  by (simp add: camera_try_fmt_def Let_def pixfmt_neq)

lemma try_fmt_sizeimage: "sizeimage (pix (snd (camera_try_fmt f))) =
   (if pixelformat (pix f) = V4L2_PIX_FMT_YUYV
    then ALIGN (clamp (width (pix f)) 160 1280) 16 * 2 * ALIGN (clamp (height (pix f)) 120 720) 2
    else ALIGN (clamp (width (pix f)) 160 1280) 16 * ALIGN (clamp (height (pix f)) 120 720) 2)"
  by (simp add: camera_try_fmt_def Let_def pixfmt_neq)

lemma try_fmt_field: "field (pix (snd (camera_try_fmt f))) = V4L2_FIELD_NONE"
  by (simp add: camera_try_fmt_def Let_def)

lemma try_fmt_colorspace: "colorspace (pix (snd (camera_try_fmt f))) = V4L2_COLORSPACE_SRGB"
  by (simp add: camera_try_fmt_def Let_def)

lemmas try_fmt_fields = try_fmt_type try_fmt_width try_fmt_height try_fmt_pixelformat
  try_fmt_bytesperline try_fmt_sizeimage try_fmt_field try_fmt_colorspace

lemma s_fmt_not_busy:
  "\<not> busy (queue dev) \<Longrightarrow>
   camera_s_fmt busy dev f = (0, dev\<lparr>format := snd (camera_try_fmt f)\<rparr>, snd (camera_try_fmt f))"
  using try_fmt_ret [of f] by (cases "camera_try_fmt f") (simp add: camera_s_fmt_def)

lemma s_fmt_busy: "busy (queue dev) \<Longrightarrow> camera_s_fmt busy dev f = (- EBUSY, dev, f)"
  by (simp add: camera_s_fmt_def)

lemma try_fmt_idem: "camera_try_fmt (snd (camera_try_fmt f)) = camera_try_fmt f"
proof -
  let ?g = "snd (camera_try_fmt f)"
  have w: "ALIGN (clamp (width (pix ?g)) 160 1280) 16 = width (pix ?g)"
    unfolding try_fmt_width by (rule negotiated_width_fixed) (rule negotiated_width_range)+
  have h: "ALIGN (clamp (height (pix ?g)) 120 720) 2 = height (pix ?g)"
    unfolding try_fmt_height by (rule negotiated_height_fixed) (rule negotiated_height_range)+
  have "pix (snd (camera_try_fmt ?g)) = pix ?g"
    apply (rule v4l2_pix_format.equality)
    apply (simp_all only: try_fmt_fields[of ?g] w h)
    apply (simp_all add: try_fmt_fields pixfmt_neq)
    done
  moreover have "type (snd (camera_try_fmt ?g)) = type ?g"
    by (simp only: try_fmt_type)
  ultimately have "snd (camera_try_fmt ?g) = ?g"
    by (intro v4l2_format.equality) simp_all
  then show ?thesis
    by (simp add: prod_eq_iff try_fmt_ret)
qed

lemma return_all_buffers_result:
  "camera_return_all_buffers done dev st =
     dev\<lparr>buf_list := [], queue := fold (\<lambda>buf. done buf st) (buf_list dev) (queue dev)\<rparr>"
proof (induction "done" dev st rule: camera_return_all_buffers.induct)
  case (1 d dev st)
  show ?case
  proof (cases "buf_list dev")
    case Nil
    then show ?thesis by (simp add: camera_return_all_buffers.simps [of d dev st])
  next
    case (Cons buf rest)
    then show ?thesis using "1" by (simp add: camera_return_all_buffers.simps [of d dev st])
  qed
qed

lemma stop_streaming_result:
  "camera_stop_streaming done dev =
     dev\<lparr>buf_list := [],
         queue := fold (\<lambda>buf. done buf VB2_BUF_STATE_ERROR) (buf_list dev) (queue dev),
         state := CAMERA_STATE_CONNECTED\<rparr>"
  by (simp add: camera_stop_streaming_def camera_stop_usb_streaming_def return_all_buffers_result)

lemma start_streaming_result:
  "camera_start_streaming dev count =
     (0, dev\<lparr>state := CAMERA_STATE_STREAMING, frames_received := 0, frames_dropped := 0\<rparr>)"
  by (simp add: camera_start_streaming_def camera_init_streaming_def)

lemma fold_vb2_buffer_done:
  "done_list (fold (\<lambda>buf. vb2_buffer_done buf st) bufs q) = done_list q @ map (\<lambda>buf. (buf, st)) bufs"
  by (induction bufs arbitrary: q) (simp_all add: vb2_buffer_done_def)

lemma unat_mult_sizes:
  assumes "unat (w::u32) \<le> 1280" "unat (h::u32) \<le> 720"
  shows "unat (w * h) = unat w * unat h" "unat (w * 2 * h) = unat w * 2 * unat h" "unat (w * 2) = unat w * 2"
proof -
  have b: "unat w * unat h \<le> 1280 * 720" using assms by (rule mult_le_mono)
  then show "unat (w * h) = unat w * unat h" by (simp add: unat_word_ariths)
  have w2: "unat (w * 2) = unat w * 2" using assms(1) by (simp add: unat_word_ariths)
  then show "unat (w * 2) = unat w * 2" .
  have "unat w * 2 * unat h \<le> 2 * (1280 * 720)" using b by (simp add: mult.commute)
  then show "unat (w * 2 * h) = unat w * 2 * unat h"
    by (simp add: unat_word_ariths(2)[of "w * 2" h] w2)
qed

subsection \<open>Devices used in the examples\<close>

lemma fold_buf_queue:
  "fold (\<lambda>buf dev. camera_buf_queue dev buf) bufs dev = dev\<lparr>buf_list := buf_list dev @ bufs\<rparr>"
  by (induction bufs arbitrary: dev) (simp_all add: camera_buf_queue_def)

lemma device_with_buffers_eq:
  "device_with_buffers n =
     probed_device\<lparr>queue := \<lparr>num_buffers = n, done_list = []\<rparr>, buf_list := [0..<n]\<rparr>"
  by (simp add: device_with_buffers_def fold_buf_queue) (simp add: probed_device_def)

subsection \<open>Queue setup and buffer return\<close>

lemma queue_setup_reqbufs:
  "camera_queue_setup dev n 0 sizes =
     (0, (if n < 2 then 2 else if 4 < n then 4 else n), 1, sizes(0 := sizeimage (pix (format dev))))"
  by (simp add: camera_queue_setup_def MIN_BUFFERS_def MAX_BUFFERS_def Let_def)

lemma queue_setup_create_bufs:
  "nplanes \<noteq> 0 \<Longrightarrow>
   camera_queue_setup dev n nplanes sizes =
     (if sizes 0 < sizeimage (pix (format dev)) then - EINVAL else 0, n, nplanes, sizes)"
  by (simp add: camera_queue_setup_def Let_def)

lemma return_all_buffers_counters:
  "frames_received (camera_return_all_buffers done dev st) = frames_received dev"
  "frames_dropped (camera_return_all_buffers done dev st) = frames_dropped dev"
  by (simp_all add: return_all_buffers_result)

subsection \<open>Steps of the frame assembler\<close>

lemma find_state_Some:
  "find_state s bs = Some i \<Longrightarrow> i < length bs \<and> bstate (bs ! i) = s"
  by (induction bs arbitrary: i) (auto split: if_splits)

lemma find_state_update_same:
  "i < length bs \<Longrightarrow> bstate b = bstate (bs ! i) \<Longrightarrow> find_state s (bs[i := b]) = find_state s bs"
proof (induction bs arbitrary: i)
  case Nil
  then show ?case by simp
next
  case (Cons c cs)
  then show ?case by (cases i) simp_all
qed

lemma yuyv_feed_partial:
  assumes "find_state Filling (pool a) = Some i"
    and "bytes_filled (pool a ! i) + length span < image_size_bytes a"
  shows "yuyv_feed span a =
     a\<lparr>pool := (pool a)[i := (pool a ! i)\<lparr>storage := storage (pool a ! i) @ span,
         bytes_filled := bytes_filled (pool a ! i) + length span\<rparr>]\<rparr>"
proof -
  have i: "i < length (pool a)"
    using assms(1) by (simp add: find_state_Some)
  show ?thesis
    using assms i by (simp add: yuyv_feed_def yuyv_append_def Let_def)
qed

lemma yuyv_feed_complete:
  assumes "find_state Filling (pool a) = Some i"
    and "bytes_filled (pool a ! i) + length span = image_size_bytes a"
    and "image_size_bytes a \<le> capacity (pool a ! i)"
  shows "yuyv_feed span a =
     snd (acquire_free
       (a\<lparr>pool := (pool a)[i := (pool a ! i)\<lparr>storage := storage (pool a ! i) @ span,
             bytes_filled := image_size_bytes a, bstate := Ready, sequence := next_sequence a\<rparr>],
          ready_queue := ready_queue a @ [i],
          stats_frames_received := stats_frames_received a + 1,
          stats_bytes_received := stats_bytes_received a + image_size_bytes a,
          next_sequence := next_sequence a + 1\<rparr>))"
proof -
  have i: "i < length (pool a)"
    using assms(1) by (simp add: find_state_Some)
  have room: "image_size_bytes a - bytes_filled (pool a ! i) = length span"
    using assms(2) by simp
  show ?thesis
    using assms i room by (simp add: yuyv_feed_def yuyv_append_def mark_ready_def Let_def)
qed

lemma acquire_free_fields:
  "ready_queue (snd (acquire_free a)) = ready_queue a"
  "image_size_bytes (snd (acquire_free a)) = image_size_bytes a"
  "next_sequence (snd (acquire_free a)) = next_sequence a"
  "stats_frames_received (snd (acquire_free a)) = stats_frames_received a"
  "stats_frames_dropped (snd (acquire_free a)) = stats_frames_dropped a"
  "stats_bytes_received (snd (acquire_free a)) = stats_bytes_received a"
  "length (pool (snd (acquire_free a))) = length (pool a)"
  by (simp_all add: acquire_free_def split: option.splits)

lemma acquire_free_other:
  "bstate (pool a ! j) \<noteq> Free \<Longrightarrow> pool (snd (acquire_free a)) ! j = pool a ! j"
  by (auto simp add: acquire_free_def nth_list_update dest: find_state_Some split: option.splits)

lemma acquire_free_Ready:
  "j < length (pool a) \<Longrightarrow>
   (bstate (pool (snd (acquire_free a)) ! j) = Ready) = (bstate (pool a ! j) = Ready)"
proof (cases "find_state Free (pool a)")
  case None
  then show ?thesis by (simp add: acquire_free_def)
next
  case (Some k)
  then have k: "k < length (pool a)" "bstate (pool a ! k) = Free"
    by (simp_all add: find_state_Some)
  show ?thesis
  proof (cases "j = k")
    case True
    then show ?thesis using Some k by (simp add: acquire_free_def)
  next
    case False
    then show ?thesis using Some by (simp add: acquire_free_def)
  qed
qed

lemma sum_list_length_0:
  "[] \<notin> set spans \<Longrightarrow> sum_list (map length spans) = 0 \<Longrightarrow> spans = []"
  by (cases spans) auto

lemma yuyv_assemble_state:
  assumes "find_state Filling (pool a) = Some i"
    and "bytes_filled (pool a ! i) + sum_list (map length spans) = image_size_bytes a"
    and "bytes_filled (pool a ! i) < image_size_bytes a"
    and "image_size_bytes a \<le> capacity (pool a ! i)"
    and "[] \<notin> set spans"
  shows "fold yuyv_feed spans a =
     snd (acquire_free
       (a\<lparr>pool := (pool a)[i := (pool a ! i)\<lparr>storage := storage (pool a ! i) @ concat spans,
             bytes_filled := image_size_bytes a, bstate := Ready, sequence := next_sequence a\<rparr>],
          ready_queue := ready_queue a @ [i],
          stats_frames_received := stats_frames_received a + 1,
          stats_bytes_received := stats_bytes_received a + image_size_bytes a,
          next_sequence := next_sequence a + 1\<rparr>))"
  using assms
proof (induction spans arbitrary: a)
  case Nil
  then show ?case by simp
next
  case (Cons span rest)
  have i: "i < length (pool a)" "bstate (pool a ! i) = Filling"
    using Cons.prems(1) by (simp_all add: find_state_Some)
  show ?case
  proof (cases "bytes_filled (pool a ! i) + length span = image_size_bytes a")
    case True
    have "sum_list (map length (span # rest)) = length span + sum_list (map length rest)"
      by simp
    then have "sum_list (map length rest) = 0"
      using Cons.prems(2) True by linarith
    then have rest: "rest = []"
      using Cons.prems(5) by (simp add: sum_list_length_0)
    show ?thesis
      using rest yuyv_feed_complete [OF Cons.prems(1) True Cons.prems(4)] by simp
  next
    case False
    then have lt: "bytes_filled (pool a ! i) + length span < image_size_bytes a"
      using Cons.prems(2) by simp
    let ?n = "a\<lparr>pool := (pool a)[i := (pool a ! i)\<lparr>storage := storage (pool a ! i) @ span,
         bytes_filled := bytes_filled (pool a ! i) + length span\<rparr>]\<rparr>"
    have f: "fold yuyv_feed (span # rest) a = fold yuyv_feed rest ?n"
      using yuyv_feed_partial [OF Cons.prems(1) lt] by simp
    have p1: "find_state Filling (pool ?n) = Some i"
      using Cons.prems(1) i by (simp add: find_state_update_same)
    have p2: "bytes_filled (pool ?n ! i) + sum_list (map length rest) = image_size_bytes ?n"
      using Cons.prems(2) i by simp
    have p3: "bytes_filled (pool ?n ! i) < image_size_bytes ?n"
      using lt i by simp
    have p4: "image_size_bytes ?n \<le> capacity (pool ?n ! i)"
      using Cons.prems(4) i by simp
    have p5: "[] \<notin> set rest"
      using Cons.prems(5) by simp
    show ?thesis
      unfolding f using Cons.IH [OF p1 p2 p3 p4 p5] i by simp
  qed
qed

subsection \<open>Receivable devices\<close>

lemma receivable_state_queue:
  "receivable dev \<Longrightarrow>
   (state dev = CAMERA_STATE_STREAMING \<longrightarrow> vb2_is_busy (queue dev))
   \<and> frames_received dev = 0 \<and> frames_dropped dev = 0"
proof (induction rule: receivable.induct)
  case probe
  then show ?case by (simp add: probed_device_def)
next
  case (step dev dev')
  from step.hyps(2) step.IH show ?case
  proof (cases rule: control_step.cases)
    case (set_format f)
    then show ?thesis using step.IH
      by (cases "vb2_is_busy (queue dev)") (simp_all add: s_fmt_busy s_fmt_not_busy)
  next
    case (request_buffers n count sizes)
    then show ?thesis using step.IH by simp
  next
    case (queue_buffer buf)
    then show ?thesis using step.IH by (simp add: camera_buf_queue_def)
  next
    case (start_streaming count)
    then show ?thesis using step.IH by (simp add: start_streaming_result)
  next
    case stop_streaming
    then show ?thesis using step.IH by (simp add: stop_streaming_result)
  qed
qed

lemma receivable_buf_queue:
  "receivable d \<Longrightarrow> \<forall>b\<in>set bs. b < num_buffers (queue d) \<Longrightarrow>
   receivable (fold (\<lambda>buf dev. camera_buf_queue dev buf) bs d)"
proof (induction bs arbitrary: d)
  case Nil
  then show ?case by simp
next
  case (Cons b bs)
  have "control_step d (camera_buf_queue d b)"
    using Cons.prems(2) by (intro control_step.queue_buffer) simp
  then have r: "receivable (camera_buf_queue d b)"
    using Cons.prems(1) by (rule receivable.step [rotated])
  have q: "\<forall>x\<in>set bs. x < num_buffers (queue (camera_buf_queue d b))"
    using Cons.prems(2) by (simp add: camera_buf_queue_def)
  show ?case
    using Cons.IH [OF r q] by simp
qed

lemma receivable_device_with_buffers: "receivable (device_with_buffers 4)"
proof -
  have n: "(4::nat) \<le> unat (fst (snd (camera_queue_setup probed_device 4 0 (nth [0]))))"
    by (simp add: queue_setup_reqbufs)
  have s: "state probed_device \<noteq> CAMERA_STATE_STREAMING"
    by (simp add: probed_device_def)
  have "control_step probed_device
      (probed_device\<lparr>queue := (queue probed_device)\<lparr>num_buffers := 4\<rparr>\<rparr>)"
    using s n by (rule control_step.request_buffers)
  then have "receivable (probed_device\<lparr>queue := (queue probed_device)\<lparr>num_buffers := 4\<rparr>\<rparr>)"
    by (rule receivable.step [OF receivable.probe])
  moreover have "(queue probed_device)\<lparr>num_buffers := 4\<rparr> = \<lparr>num_buffers = 4, done_list = []\<rparr>"
    by (simp add: probed_device_def)
  ultimately have "receivable (probed_device\<lparr>queue := \<lparr>num_buffers = 4, done_list = []\<rparr>\<rparr>)"
    by simp
  then show ?thesis
    unfolding device_with_buffers_def by (rule receivable_buf_queue) simp
qed

lemma start_step_device_with_buffers:
  "control_step (device_with_buffers 4) (snd (camera_start_streaming (device_with_buffers 4) 4))"
  by (rule control_step.start_streaming) (simp add: device_with_buffers_eq vb2_is_busy_def)

lemma receivable_streaming_device:
  "receivable (snd (camera_start_streaming (device_with_buffers 4) 4))"
  by (rule receivable.step [OF receivable_device_with_buffers start_step_device_with_buffers])

subsection \<open>Counters of the completion path\<close>

lemma mark_ready_counters:
  "stats_frames_received a \<le> stats_frames_received (mark_ready i n seq a)"
  "stats_frames_dropped a \<le> stats_frames_dropped (mark_ready i n seq a)"
  "stats_bytes_received a \<le> stats_bytes_received (mark_ready i n seq a)"
  by (simp_all add: mark_ready_def)






subsection \<open>Validity of a negotiated descriptor\<close>

lemma try_fmt_valid:
  "(pixelformat (pix (snd (camera_try_fmt f))) = V4L2_PIX_FMT_MJPEG
      \<or> pixelformat (pix (snd (camera_try_fmt f))) = V4L2_PIX_FMT_YUYV)
   \<and> 160 \<le> width (pix (snd (camera_try_fmt f)))
   \<and> width (pix (snd (camera_try_fmt f))) \<le> 1280
   \<and> 16 dvd unat (width (pix (snd (camera_try_fmt f))))
   \<and> 120 \<le> height (pix (snd (camera_try_fmt f)))
   \<and> height (pix (snd (camera_try_fmt f))) \<le> 720
   \<and> 2 dvd unat (height (pix (snd (camera_try_fmt f))))
   \<and> field (pix (snd (camera_try_fmt f))) = V4L2_FIELD_NONE
   \<and> colorspace (pix (snd (camera_try_fmt f))) = V4L2_COLORSPACE_SRGB"
proof -
  have "160 \<le> width (pix (snd (camera_try_fmt f)))"
    using negotiated_width_range(1) [of "width (pix f)"]
    by (simp add: try_fmt_width word_le_nat_alt)
  moreover have "width (pix (snd (camera_try_fmt f))) \<le> 1280"
    using negotiated_width_range(2) [of "width (pix f)"]
    by (simp add: try_fmt_width word_le_nat_alt)
  moreover have "120 \<le> height (pix (snd (camera_try_fmt f)))"
    using negotiated_height_range(1) [of "height (pix f)"]
    by (simp add: try_fmt_height word_le_nat_alt)
  moreover have "height (pix (snd (camera_try_fmt f))) \<le> 720"
    using negotiated_height_range(2) [of "height (pix f)"]
    by (simp add: try_fmt_height word_le_nat_alt)
  moreover have "16 dvd unat (width (pix (snd (camera_try_fmt f))))"
    unfolding try_fmt_width by (rule negotiated_width_range(3))
  moreover have "2 dvd unat (height (pix (snd (camera_try_fmt f))))"
    unfolding try_fmt_height by (rule negotiated_height_range(3))
  moreover have "pixelformat (pix (snd (camera_try_fmt f))) = V4L2_PIX_FMT_MJPEG
      \<or> pixelformat (pix (snd (camera_try_fmt f))) = V4L2_PIX_FMT_YUYV"
    by (simp add: try_fmt_pixelformat)
  moreover have "field (pix (snd (camera_try_fmt f))) = V4L2_FIELD_NONE"
    by (rule try_fmt_field)
  moreover have "colorspace (pix (snd (camera_try_fmt f))) = V4L2_COLORSPACE_SRGB"
    by (rule try_fmt_colorspace)
  ultimately show ?thesis
    by (intro conjI)
qed

section \<open>The claims\<close>

text \<open>
  Claim C1.  For every format descriptor, \<^verbatim>\<open>set_format\<close> (\<^verbatim>\<open>camera_s_fmt\<close>) called while
  the device is in the Streaming state returns \<^verbatim>\<open>-EBUSY\<close> and leaves the device, its
  stored format included, and the caller's descriptor unchanged.  The function tests
  \<^verbatim>\<open>vb2_is_busy\<close> on the queue, which holds on every receivable device in that state,
  since streaming starts only on a queue with buffers and these stay allocated while it
  lasts.
\<close>

theorem set_format_while_streaming:
  "receivable dev \<Longrightarrow> state dev = CAMERA_STATE_STREAMING \<Longrightarrow>
   camera_s_fmt vb2_is_busy dev f = (- EBUSY, dev, f)
   \<and> format (fst (snd (camera_s_fmt vb2_is_busy dev f))) = format dev"
  using receivable_state_queue [of dev] by (simp add: s_fmt_busy)

theorem set_format_while_streaming_witness:
  "receivable (snd (camera_start_streaming (device_with_buffers 4) 4))
   \<and> state (snd (camera_start_streaming (device_with_buffers 4) 4)) = CAMERA_STATE_STREAMING
   \<and> camera_s_fmt vb2_is_busy (snd (camera_start_streaming (device_with_buffers 4) 4))
         (request 320 240 V4L2_PIX_FMT_YUYV)
       = (- EBUSY, snd (camera_start_streaming (device_with_buffers 4) 4),
          request 320 240 V4L2_PIX_FMT_YUYV)"
proof -
  have s: "state (snd (camera_start_streaming (device_with_buffers 4) 4)) = CAMERA_STATE_STREAMING"
    by (simp add: start_streaming_result)
  show ?thesis
    using receivable_streaming_device s
      set_format_while_streaming [OF receivable_streaming_device s,
        of "request 320 240 V4L2_PIX_FMT_YUYV"]
    by simp
qed

text \<open>
  Claim C2.  For every requested descriptor, format negotiation succeeds and returns a
  width that is the request's width clamped into 160..1280 and then rounded up to a
  multiple of 16, and a height that is the request's height clamped into 120..720 and then
  rounded up to a multiple of 2; both stay inside their ranges.  When the queue is not busy,
  \<^verbatim>\<open>set_format\<close> returns this same descriptor to the caller and stores it in the device.
\<close>

theorem negotiation_clamps_and_aligns:
  "fst (camera_try_fmt f) = 0
   \<and> width (pix (snd (camera_try_fmt f))) = ALIGN (clamp (width (pix f)) 160 1280) 16
   \<and> height (pix (snd (camera_try_fmt f))) = ALIGN (clamp (height (pix f)) 120 720) 2
   \<and> unat (width (pix (snd (camera_try_fmt f))))
       = (min (max (unat (width (pix f))) 160) 1280 + 15) div 16 * 16
   \<and> unat (height (pix (snd (camera_try_fmt f))))
       = (min (max (unat (height (pix f))) 120) 720 + 1) div 2 * 2
   \<and> 160 \<le> width (pix (snd (camera_try_fmt f)))
   \<and> width (pix (snd (camera_try_fmt f))) \<le> 1280
   \<and> 16 dvd unat (width (pix (snd (camera_try_fmt f))))
   \<and> 120 \<le> height (pix (snd (camera_try_fmt f)))
   \<and> height (pix (snd (camera_try_fmt f))) \<le> 720
   \<and> 2 dvd unat (height (pix (snd (camera_try_fmt f))))
   \<and> (\<not> busy (queue dev) \<longrightarrow>
        camera_s_fmt busy dev f
          = (0, dev\<lparr>format := snd (camera_try_fmt f)\<rparr>, snd (camera_try_fmt f)))"
proof -
  have "fst (camera_try_fmt f) = 0"
    by (rule try_fmt_ret)
  moreover have "width (pix (snd (camera_try_fmt f))) = ALIGN (clamp (width (pix f)) 160 1280) 16"
    by (rule try_fmt_width)
  moreover have "height (pix (snd (camera_try_fmt f))) = ALIGN (clamp (height (pix f)) 120 720) 2"
    by (rule try_fmt_height)
  moreover have "\<not> busy (queue dev) \<longrightarrow>
        camera_s_fmt busy dev f
          = (0, dev\<lparr>format := snd (camera_try_fmt f)\<rparr>, snd (camera_try_fmt f))"
    by (simp add: s_fmt_not_busy)
  moreover have "160 \<le> width (pix (snd (camera_try_fmt f)))"
    using negotiated_width_range(1) [of "width (pix f)"]
    by (simp add: try_fmt_width word_le_nat_alt)
  moreover have "width (pix (snd (camera_try_fmt f))) \<le> 1280"
    using negotiated_width_range(2) [of "width (pix f)"]
    by (simp add: try_fmt_width word_le_nat_alt)
  moreover have "120 \<le> height (pix (snd (camera_try_fmt f)))"
    using negotiated_height_range(1) [of "height (pix f)"]
    by (simp add: try_fmt_height word_le_nat_alt)
  moreover have "height (pix (snd (camera_try_fmt f))) \<le> 720"
    using negotiated_height_range(2) [of "height (pix f)"]
    by (simp add: try_fmt_height word_le_nat_alt)
  moreover have "16 dvd unat (width (pix (snd (camera_try_fmt f))))"
    unfolding try_fmt_width by (rule negotiated_width_range(3))
  moreover have "2 dvd unat (height (pix (snd (camera_try_fmt f))))"
    unfolding try_fmt_height by (rule negotiated_height_range(3))
  moreover have "unat (width (pix (snd (camera_try_fmt f))))
       = (min (max (unat (width (pix f))) 160) 1280 + 15) div 16 * 16"
    unfolding try_fmt_width by (rule unat_negotiated_width)
  moreover have "unat (height (pix (snd (camera_try_fmt f))))
       = (min (max (unat (height (pix f))) 120) 720 + 1) div 2 * 2"
    unfolding try_fmt_height by (rule unat_negotiated_height)
  ultimately show ?thesis
    by (intro conjI)
qed

theorem negotiation_clamps_and_aligns_witness:
  "\<not> vb2_is_busy (queue probed_device)
   \<and> camera_s_fmt vb2_is_busy probed_device (request 650 5000 V4L2_PIX_FMT_YUYV)
       = (0, probed_device\<lparr>format := snd (camera_try_fmt (request 650 5000 V4L2_PIX_FMT_YUYV))\<rparr>,
          snd (camera_try_fmt (request 650 5000 V4L2_PIX_FMT_YUYV)))
   \<and> width (pix (snd (camera_try_fmt (request 650 5000 V4L2_PIX_FMT_YUYV)))) = 656
   \<and> height (pix (snd (camera_try_fmt (request 650 5000 V4L2_PIX_FMT_YUYV)))) = 720"
proof -
  have nb: "\<not> vb2_is_busy (queue probed_device)"
    by (simp add: vb2_is_busy_def probed_device_def)
  have w: "ALIGN (clamp (width (pix (request 650 5000 V4L2_PIX_FMT_YUYV))) 160 1280) 16 = 656"
    by (simp add: request_def clamp_def ALIGN_def)
  have h: "ALIGN (clamp (height (pix (request 650 5000 V4L2_PIX_FMT_YUYV))) 120 720) 2 = 720"
    by (simp add: request_def clamp_def ALIGN_def)
  show ?thesis
    using nb w h
      negotiation_clamps_and_aligns [of "request 650 5000 V4L2_PIX_FMT_YUYV" vb2_is_busy probed_device]
    by simp
qed

text \<open>
  Claim C3.  In a negotiated descriptor the image size is width * height * 2 with
  bytes per line width * 2 when the pixel format is YUYV, and width * height when it is
  MJPEG; the 32-bit products do not wrap.  A 640x480 YUYV request yields 614400 bytes.
\<close>

theorem negotiated_image_size:
  "(pixelformat (pix (snd (camera_try_fmt f))) = V4L2_PIX_FMT_YUYV \<longrightarrow>
      bytesperline (pix (snd (camera_try_fmt f))) = width (pix (snd (camera_try_fmt f))) * 2
      \<and> sizeimage (pix (snd (camera_try_fmt f)))
          = width (pix (snd (camera_try_fmt f))) * height (pix (snd (camera_try_fmt f))) * 2
      \<and> unat (bytesperline (pix (snd (camera_try_fmt f))))
          = unat (width (pix (snd (camera_try_fmt f)))) * 2
      \<and> unat (sizeimage (pix (snd (camera_try_fmt f))))
          = unat (width (pix (snd (camera_try_fmt f))))
            * unat (height (pix (snd (camera_try_fmt f)))) * 2)
   \<and> (pixelformat (pix (snd (camera_try_fmt f))) = V4L2_PIX_FMT_MJPEG \<longrightarrow>
      sizeimage (pix (snd (camera_try_fmt f)))
          = width (pix (snd (camera_try_fmt f))) * height (pix (snd (camera_try_fmt f)))
      \<and> unat (sizeimage (pix (snd (camera_try_fmt f))))
          = unat (width (pix (snd (camera_try_fmt f))))
            * unat (height (pix (snd (camera_try_fmt f)))))
   \<and> (pixelformat (pix f) = V4L2_PIX_FMT_YUYV \<and> width (pix f) = 640 \<and> height (pix f) = 480 \<longrightarrow>
      pixelformat (pix (snd (camera_try_fmt f))) = V4L2_PIX_FMT_YUYV
      \<and> width (pix (snd (camera_try_fmt f))) = 640
      \<and> height (pix (snd (camera_try_fmt f))) = 480
      \<and> sizeimage (pix (snd (camera_try_fmt f))) = 614400)"
proof -
  let ?W = "ALIGN (clamp (width (pix f)) 160 1280) 16"
  let ?H = "ALIGN (clamp (height (pix f)) 120 720) 2"
  have m: "unat (?W * ?H) = unat ?W * unat ?H" "unat (?W * 2 * ?H) = unat ?W * 2 * unat ?H"
      "unat (?W * 2) = unat ?W * 2"
    by (rule unat_mult_sizes, rule negotiated_width_range(2), rule negotiated_height_range(2))+
  have yuyv: "pixelformat (pix (snd (camera_try_fmt f))) = V4L2_PIX_FMT_YUYV \<longrightarrow>
      bytesperline (pix (snd (camera_try_fmt f))) = width (pix (snd (camera_try_fmt f))) * 2
      \<and> sizeimage (pix (snd (camera_try_fmt f)))
          = width (pix (snd (camera_try_fmt f))) * height (pix (snd (camera_try_fmt f))) * 2
      \<and> unat (bytesperline (pix (snd (camera_try_fmt f))))
          = unat (width (pix (snd (camera_try_fmt f)))) * 2
      \<and> unat (sizeimage (pix (snd (camera_try_fmt f))))
          = unat (width (pix (snd (camera_try_fmt f))))
            * unat (height (pix (snd (camera_try_fmt f)))) * 2"
    using m by (simp add: try_fmt_fields pixfmt_neq mult.commute mult.left_commute)
  have mjpeg: "pixelformat (pix (snd (camera_try_fmt f))) = V4L2_PIX_FMT_MJPEG \<longrightarrow>
      sizeimage (pix (snd (camera_try_fmt f)))
          = width (pix (snd (camera_try_fmt f))) * height (pix (snd (camera_try_fmt f)))
      \<and> unat (sizeimage (pix (snd (camera_try_fmt f))))
          = unat (width (pix (snd (camera_try_fmt f))))
            * unat (height (pix (snd (camera_try_fmt f))))"
    using m by (simp add: try_fmt_fields pixfmt_neq)
  have vga: "pixelformat (pix f) = V4L2_PIX_FMT_YUYV \<and> width (pix f) = 640 \<and> height (pix f) = 480 \<longrightarrow>
      pixelformat (pix (snd (camera_try_fmt f))) = V4L2_PIX_FMT_YUYV
      \<and> width (pix (snd (camera_try_fmt f))) = 640
      \<and> height (pix (snd (camera_try_fmt f))) = 480
      \<and> sizeimage (pix (snd (camera_try_fmt f))) = 614400"
    by (simp add: try_fmt_fields clamp_def ALIGN_def)
  from yuyv mjpeg vga show ?thesis by (intro conjI)
qed



theorem negotiated_image_size_witness:
  "pixelformat (pix (request 640 480 V4L2_PIX_FMT_YUYV)) = V4L2_PIX_FMT_YUYV
   \<and> width (pix (request 640 480 V4L2_PIX_FMT_YUYV)) = 640
   \<and> height (pix (request 640 480 V4L2_PIX_FMT_YUYV)) = 480
   \<and> pixelformat (pix (snd (camera_try_fmt (request 640 480 V4L2_PIX_FMT_YUYV)))) = V4L2_PIX_FMT_YUYV
   \<and> bytesperline (pix (snd (camera_try_fmt (request 640 480 V4L2_PIX_FMT_YUYV)))) = 1280
   \<and> sizeimage (pix (snd (camera_try_fmt (request 640 480 V4L2_PIX_FMT_YUYV)))) = 614400
   \<and> pixelformat (pix (snd (camera_try_fmt (request 640 480 V4L2_PIX_FMT_MJPEG)))) = V4L2_PIX_FMT_MJPEG
   \<and> sizeimage (pix (snd (camera_try_fmt (request 640 480 V4L2_PIX_FMT_MJPEG)))) = 307200"
proof -
  have r: "pixelformat (pix (request 640 480 V4L2_PIX_FMT_YUYV)) = V4L2_PIX_FMT_YUYV
      \<and> width (pix (request 640 480 V4L2_PIX_FMT_YUYV)) = 640
      \<and> height (pix (request 640 480 V4L2_PIX_FMT_YUYV)) = 480"
    by (simp add: request_def)
  have y: "pixelformat (pix (snd (camera_try_fmt (request 640 480 V4L2_PIX_FMT_YUYV)))) = V4L2_PIX_FMT_YUYV
      \<and> width (pix (snd (camera_try_fmt (request 640 480 V4L2_PIX_FMT_YUYV)))) = 640
      \<and> height (pix (snd (camera_try_fmt (request 640 480 V4L2_PIX_FMT_YUYV)))) = 480
      \<and> sizeimage (pix (snd (camera_try_fmt (request 640 480 V4L2_PIX_FMT_YUYV)))) = 614400"
    using r negotiated_image_size [of "request 640 480 V4L2_PIX_FMT_YUYV"] by blast
  have yb: "bytesperline (pix (snd (camera_try_fmt (request 640 480 V4L2_PIX_FMT_YUYV)))) = 1280"
    using y negotiated_image_size [of "request 640 480 V4L2_PIX_FMT_YUYV"] by simp
  have mp: "pixelformat (pix (snd (camera_try_fmt (request 640 480 V4L2_PIX_FMT_MJPEG)))) = V4L2_PIX_FMT_MJPEG"
    by (simp add: try_fmt_pixelformat request_def pixfmt_neq)
  have mw: "width (pix (snd (camera_try_fmt (request 640 480 V4L2_PIX_FMT_MJPEG)))) = 640"
     "height (pix (snd (camera_try_fmt (request 640 480 V4L2_PIX_FMT_MJPEG)))) = 480"
    by (simp_all add: try_fmt_width try_fmt_height request_def clamp_def ALIGN_def)
  have ms: "sizeimage (pix (snd (camera_try_fmt (request 640 480 V4L2_PIX_FMT_MJPEG)))) = 307200"
    using mp mw negotiated_image_size [of "request 640 480 V4L2_PIX_FMT_MJPEG"] by simp
  from r y yb mp ms show ?thesis by simp
qed

text \<open>
  Claim C4.  \<^verbatim>\<open>request_buffers\<close> reaches \<^verbatim>\<open>camera_queue_setup\<close> with the requested
  count and no plane layout, \<^verbatim>\<open>*nplanes = 0\<close>.  For every requested count the call returns
  0 and the count that takes effect is the request clamped into
  \<^verbatim>\<open>[MIN_BUFFERS, MAX_BUFFERS]\<close>, that is 2..4: a request below 2 yields 2, a request above 4
  yields 4, and a request in between is kept.  (The other branch of the function, taken
  when a plane layout is passed in, only checks \<^verbatim>\<open>sizes[0]\<close>; see
  \<open>queue_setup_create_bufs\<close>.)
\<close>

theorem queue_setup_clamps_count:
  "fst (camera_queue_setup dev n 0 sizes) = 0
   \<and> fst (snd (camera_queue_setup dev n 0 sizes)) = clamp n MIN_BUFFERS MAX_BUFFERS
   \<and> MIN_BUFFERS \<le> fst (snd (camera_queue_setup dev n 0 sizes))
   \<and> fst (snd (camera_queue_setup dev n 0 sizes)) \<le> MAX_BUFFERS
   \<and> (n < 2 \<longrightarrow> fst (snd (camera_queue_setup dev n 0 sizes)) = 2)
   \<and> (4 < n \<longrightarrow> fst (snd (camera_queue_setup dev n 0 sizes)) = 4)
   \<and> (2 \<le> n \<and> n \<le> 4 \<longrightarrow> fst (snd (camera_queue_setup dev n 0 sizes)) = n)"
  apply (simp add: queue_setup_reqbufs clamp_def MIN_BUFFERS_def MAX_BUFFERS_def)
  apply (auto simp add: word_le_nat_alt word_less_nat_alt min_def max_def)
  done

theorem queue_setup_clamps_count_witness:
  "fst (snd (camera_queue_setup probed_device 1 0 (nth [0]))) = 2
   \<and> fst (snd (camera_queue_setup probed_device 10 0 (nth [0]))) = 4
   \<and> fst (snd (camera_queue_setup probed_device 3 0 (nth [0]))) = 3"
  using queue_setup_clamps_count [of probed_device 1 "nth [0]"]
    queue_setup_clamps_count [of probed_device 10 "nth [0]"]
    queue_setup_clamps_count [of probed_device 3 "nth [0]"]
  by (simp add: clamp_def MIN_BUFFERS_def MAX_BUFFERS_def)

text \<open>
  Claim C5.  A descriptor whose pixel format is neither MJPEG nor YUYV is not rejected:
  \<^verbatim>\<open>try_fmt\<close> returns 0 with the pixel format replaced by MJPEG, and so does
  \<^verbatim>\<open>set_format\<close> on a queue that is not busy, which stores MJPEG.
\<close>

theorem unknown_pixelformat_coerced:
  "pixelformat (pix f) \<noteq> V4L2_PIX_FMT_MJPEG \<Longrightarrow> pixelformat (pix f) \<noteq> V4L2_PIX_FMT_YUYV \<Longrightarrow>
   fst (camera_try_fmt f) = 0
   \<and> pixelformat (pix (snd (camera_try_fmt f))) = V4L2_PIX_FMT_MJPEG
   \<and> (\<not> busy (queue dev) \<longrightarrow>
        fst (camera_s_fmt busy dev f) = 0
        \<and> pixelformat (pix (format (fst (snd (camera_s_fmt busy dev f))))) = V4L2_PIX_FMT_MJPEG
        \<and> pixelformat (pix (snd (snd (camera_s_fmt busy dev f)))) = V4L2_PIX_FMT_MJPEG)"
  by (simp add: try_fmt_ret try_fmt_pixelformat s_fmt_not_busy)

theorem unknown_pixelformat_coerced_witness:
  "pixelformat (pix (request 640 480 V4L2_PIX_FMT_RGB24)) \<noteq> V4L2_PIX_FMT_MJPEG
   \<and> pixelformat (pix (request 640 480 V4L2_PIX_FMT_RGB24)) \<noteq> V4L2_PIX_FMT_YUYV
   \<and> \<not> vb2_is_busy (queue probed_device)
   \<and> fst (camera_try_fmt (request 640 480 V4L2_PIX_FMT_RGB24)) = 0
   \<and> pixelformat (pix (snd (camera_try_fmt (request 640 480 V4L2_PIX_FMT_RGB24)))) = V4L2_PIX_FMT_MJPEG
   \<and> fst (camera_s_fmt vb2_is_busy probed_device (request 640 480 V4L2_PIX_FMT_RGB24)) = 0
   \<and> pixelformat (pix (format (fst (snd (camera_s_fmt vb2_is_busy probed_device
        (request 640 480 V4L2_PIX_FMT_RGB24)))))) = V4L2_PIX_FMT_MJPEG"
proof -
  have a: "pixelformat (pix (request 640 480 V4L2_PIX_FMT_RGB24)) \<noteq> V4L2_PIX_FMT_MJPEG"
    by (simp add: request_def V4L2_PIX_FMT_RGB24_def V4L2_PIX_FMT_MJPEG_def v4l2_fourcc_def)
  have b: "pixelformat (pix (request 640 480 V4L2_PIX_FMT_RGB24)) \<noteq> V4L2_PIX_FMT_YUYV"
    by (simp add: request_def V4L2_PIX_FMT_RGB24_def V4L2_PIX_FMT_YUYV_def v4l2_fourcc_def)
  have nb: "\<not> vb2_is_busy (queue probed_device)"
    by (simp add: vb2_is_busy_def probed_device_def)
  show ?thesis
    using a b nb unknown_pixelformat_coerced [OF a b, of vb2_is_busy probed_device] by simp
qed

text \<open>
  Claim C6.  After \<^verbatim>\<open>stop_streaming\<close> returns from the Streaming state the device state
  is Connected, the pending-buffer list is empty, and \<^verbatim>\<open>vb2_buffer_done\<close> has been called
  with \<^verbatim>\<open>VB2_BUF_STATE_ERROR\<close> on every buffer that was on the list, once each and in list
  order: the queue is the old queue after exactly these calls.
\<close>

theorem stop_streaming_returns_buffers:
  "state dev = CAMERA_STATE_STREAMING \<Longrightarrow>
   state (camera_stop_streaming done dev) = CAMERA_STATE_CONNECTED
   \<and> buf_list (camera_stop_streaming done dev) = []
   \<and> queue (camera_stop_streaming done dev)
       = fold (\<lambda>buf. done buf VB2_BUF_STATE_ERROR) (buf_list dev) (queue dev)
   \<and> format (camera_stop_streaming done dev) = format dev"
  by (simp add: stop_streaming_result)

theorem stop_streaming_returns_buffers_witness:
  "state (snd (camera_start_streaming (device_with_buffers 3) 3)) = CAMERA_STATE_STREAMING
   \<and> buf_list (snd (camera_start_streaming (device_with_buffers 3) 3)) = [0, 1, 2]
   \<and> state (camera_stop_streaming vb2_buffer_done (snd (camera_start_streaming (device_with_buffers 3) 3)))
       = CAMERA_STATE_CONNECTED
   \<and> buf_list (camera_stop_streaming vb2_buffer_done (snd (camera_start_streaming (device_with_buffers 3) 3)))
       = []
   \<and> done_list (queue (camera_stop_streaming vb2_buffer_done
         (snd (camera_start_streaming (device_with_buffers 3) 3))))
       = [(0, VB2_BUF_STATE_ERROR), (1, VB2_BUF_STATE_ERROR), (2, VB2_BUF_STATE_ERROR)]"
proof -
  have s: "state (snd (camera_start_streaming (device_with_buffers 3) 3)) = CAMERA_STATE_STREAMING"
    by (simp add: start_streaming_result)
  have u: "[0..<3] = [0, 1, 2::nat]"
    by (simp add: upt_rec)
  have b: "buf_list (snd (camera_start_streaming (device_with_buffers 3) 3)) = [0, 1, 2]"
    by (simp add: start_streaming_result device_with_buffers_eq u)
  have q: "queue (snd (camera_start_streaming (device_with_buffers 3) 3))
            = \<lparr>num_buffers = 3, done_list = []\<rparr>"
    by (simp add: start_streaming_result device_with_buffers_eq)
  show ?thesis
    using s b q
      stop_streaming_returns_buffers [OF s, of vb2_buffer_done]
    by (simp add: vb2_buffer_done_def)
qed



text \<open>
  Claim C8.  In YUYV mode, let a buffer be in \<^verbatim>\<open>Filling\<close>, empty and large enough for a
  frame.  For every split of a byte stream of \<^verbatim>\<open>image_size_bytes\<close> bytes into non-empty
  spans, from single bytes up to one span of the full length, feeding the spans in order
  makes exactly this buffer \<^verbatim>\<open>Ready\<close>, with \<^verbatim>\<open>bytes_filled\<close> equal to
  \<^verbatim>\<open>image_size_bytes\<close> and the stream as its contents; no other buffer becomes or ceases
  to be \<^verbatim>\<open>Ready\<close>, and any other split of the same stream ends in the same state of the
  assembler.
\<close>

theorem yuyv_assembly_any_split:
  assumes "find_state Filling (pool a) = Some i"
    and "bytes_filled (pool a ! i) = 0"
    and "storage (pool a ! i) = []"
    and "0 < image_size_bytes a"
    and "image_size_bytes a \<le> capacity (pool a ! i)"
    and "[] \<notin> set spans"
    and "length (concat spans) = image_size_bytes a"
  shows "ready_queue (fold yuyv_feed spans a) = ready_queue a @ [i]
    \<and> bstate (pool (fold yuyv_feed spans a) ! i) = Ready
    \<and> bytes_filled (pool (fold yuyv_feed spans a) ! i) = image_size_bytes a
    \<and> storage (pool (fold yuyv_feed spans a) ! i) = concat spans
    \<and> sequence (pool (fold yuyv_feed spans a) ! i) = next_sequence a
    \<and> stats_frames_received (fold yuyv_feed spans a) = stats_frames_received a + 1
    \<and> (\<forall>j. j < length (pool a) \<and> j \<noteq> i \<longrightarrow>
          (bstate (pool (fold yuyv_feed spans a) ! j) = Ready) = (bstate (pool a ! j) = Ready))
    \<and> (\<forall>spans'. [] \<notin> set spans' \<and> concat spans' = concat spans \<longrightarrow>
          fold yuyv_feed spans' a = fold yuyv_feed spans a)"
proof -
  let ?m = "a\<lparr>pool := (pool a)[i := (pool a ! i)\<lparr>storage := storage (pool a ! i) @ concat spans,
             bytes_filled := image_size_bytes a, bstate := Ready, sequence := next_sequence a\<rparr>],
          ready_queue := ready_queue a @ [i],
          stats_frames_received := stats_frames_received a + 1,
          stats_bytes_received := stats_bytes_received a + image_size_bytes a,
          next_sequence := next_sequence a + 1\<rparr>"
  have i: "i < length (pool a)" "bstate (pool a ! i) = Filling"
    using assms(1) by (simp_all add: find_state_Some)
  have total: "\<And>ss. length (concat ss) = image_size_bytes a \<Longrightarrow>
      bytes_filled (pool a ! i) + sum_list (map length ss) = image_size_bytes a"
    using assms(2) by (simp add: length_concat)
  have lt: "bytes_filled (pool a ! i) < image_size_bytes a"
    using assms(2,4) by simp
  have f: "fold yuyv_feed spans a = snd (acquire_free ?m)"
    by (rule yuyv_assemble_state [OF assms(1) total [OF assms(7)] lt assms(5,6)])
  have mi: "bstate (pool ?m ! i) \<noteq> Free"
    using i by simp
  have pi: "pool (snd (acquire_free ?m)) ! i = pool ?m ! i"
    by (rule acquire_free_other [OF mi])
  have c1: "ready_queue (fold yuyv_feed spans a) = ready_queue a @ [i]"
    unfolding f by (simp add: acquire_free_fields)
  have c2: "bstate (pool (fold yuyv_feed spans a) ! i) = Ready"
    unfolding f pi using i by simp
  have c3: "bytes_filled (pool (fold yuyv_feed spans a) ! i) = image_size_bytes a"
    unfolding f pi using i by simp
  have c4: "storage (pool (fold yuyv_feed spans a) ! i) = concat spans"
    unfolding f pi using i assms(3) by simp
  have c5: "sequence (pool (fold yuyv_feed spans a) ! i) = next_sequence a"
    unfolding f pi using i by simp
  have c6: "stats_frames_received (fold yuyv_feed spans a) = stats_frames_received a + 1"
    unfolding f by (simp add: acquire_free_fields)
  have c7: "\<forall>j. j < length (pool a) \<and> j \<noteq> i \<longrightarrow>
          (bstate (pool (fold yuyv_feed spans a) ! j) = Ready) = (bstate (pool a ! j) = Ready)"
  proof (intro allI impI)
    fix j assume j: "j < length (pool a) \<and> j \<noteq> i"
    then have "(bstate (pool (snd (acquire_free ?m)) ! j) = Ready) = (bstate (pool ?m ! j) = Ready)"
      by (intro acquire_free_Ready) simp
    then show "(bstate (pool (fold yuyv_feed spans a) ! j) = Ready) = (bstate (pool a ! j) = Ready)"
      unfolding f using j by simp
  qed
  have c8: "\<forall>spans'. [] \<notin> set spans' \<and> concat spans' = concat spans \<longrightarrow>
          fold yuyv_feed spans' a = fold yuyv_feed spans a"
  proof (intro allI impI)
    fix spans' assume s: "[] \<notin> set spans' \<and> concat spans' = concat spans"
    then have len: "length (concat spans') = image_size_bytes a"
      using assms(7) by simp
    have "fold yuyv_feed spans' a = snd (acquire_free ?m)"
      using yuyv_assemble_state [OF assms(1) total [OF len] lt assms(5), of ] s by simp
    then show "fold yuyv_feed spans' a = fold yuyv_feed spans a"
      by (simp only: f)
  qed
  from c1 c2 c3 c4 c5 c6 c7 c8 show ?thesis by (intro conjI)
qed

theorem yuyv_assembly_any_split_witness:
  "find_state Filling (pool (snd (acquire_free (new_assembler 4 614400)))) = Some 0
   \<and> length (concat [replicate 204800 (0::8 word), replicate 204800 1, replicate 204800 2]) = 614400
   \<and> ready_queue (fold yuyv_feed [replicate 204800 0, replicate 204800 1, replicate 204800 2]
        (snd (acquire_free (new_assembler 4 614400)))) = [0]
   \<and> bstate (pool (fold yuyv_feed [replicate 204800 0, replicate 204800 1, replicate 204800 2]
        (snd (acquire_free (new_assembler 4 614400)))) ! 0) = Ready
   \<and> bytes_filled (pool (fold yuyv_feed [replicate 204800 0, replicate 204800 1, replicate 204800 2]
        (snd (acquire_free (new_assembler 4 614400)))) ! 0) = 614400
   \<and> sequence (pool (fold yuyv_feed [replicate 204800 0, replicate 204800 1, replicate 204800 2]
        (snd (acquire_free (new_assembler 4 614400)))) ! 0) = 0"
proof -
  let ?a = "snd (acquire_free (new_assembler 4 614400))"
  let ?spans = "[replicate 204800 (0::8 word), replicate 204800 1, replicate 204800 2]"
  have h1: "find_state Filling (pool ?a) = Some 0"
    by (simp add: acquire_free_def new_assembler_def upt_rec)
  have h2: "bytes_filled (pool ?a ! 0) = 0"
    by (simp add: acquire_free_def new_assembler_def upt_rec)
  have h3: "storage (pool ?a ! 0) = []"
    by (simp add: acquire_free_def new_assembler_def upt_rec)
  have h4: "0 < image_size_bytes ?a"
    by (simp add: acquire_free_fields) (simp add: new_assembler_def)
  have h5: "image_size_bytes ?a \<le> capacity (pool ?a ! 0)"
    by (simp add: acquire_free_def new_assembler_def upt_rec)
  have h6: "[] \<notin> set ?spans"
    by simp
  have h7: "length (concat ?spans) = image_size_bytes ?a"
    by (simp add: acquire_free_fields) (simp add: new_assembler_def)
  have r: "ready_queue ?a = []" "next_sequence ?a = 0" "image_size_bytes ?a = 614400"
    by (simp_all add: acquire_free_fields) (simp_all add: new_assembler_def)
  show ?thesis
    using h1 h7 r yuyv_assembly_any_split [OF h1 h2 h3 h4 h5 h6 h7] by simp
qed

text \<open>
  Claim C9.  Format negotiation is idempotent: negotiating a descriptor that negotiation
  returned gives the same result again, so an accepted descriptor comes back unchanged.
\<close>

theorem negotiation_idempotent:
  "camera_try_fmt (snd (camera_try_fmt f)) = camera_try_fmt f
   \<and> snd (camera_try_fmt (snd (camera_try_fmt f))) = snd (camera_try_fmt f)"
  by (simp add: try_fmt_idem)

theorem negotiation_idempotent_witness:
  "snd (camera_try_fmt (snd (camera_try_fmt (request 650 5000 V4L2_PIX_FMT_RGB24))))
     = snd (camera_try_fmt (request 650 5000 V4L2_PIX_FMT_RGB24))"
  using negotiation_idempotent [of "request 650 5000 V4L2_PIX_FMT_RGB24"] by simp

text \<open>
  Claim C10.  \<^verbatim>\<open>set_format\<close> never fails with \<^verbatim>\<open>-EINVAL\<close>.  On a queue that is not busy
  it returns 0 for every descriptor, whatever its width, height and pixel format, and the
  descriptor it hands back and stores is the negotiated one, which is valid: the pixel
  format is MJPEG or YUYV, the width is a multiple of 16 in 160..1280, the height a
  multiple of 2 in 120..720, the field and colour space are set.  Its only other return
  value is \<^verbatim>\<open>-EBUSY\<close>, returned exactly when the queue is busy, with nothing changed.
\<close>

theorem set_format_fails_only_busy:
  "(\<not> busy (queue dev) \<longrightarrow>
      fst (camera_s_fmt busy dev f) = 0
      \<and> fst (snd (camera_s_fmt busy dev f)) = dev\<lparr>format := snd (snd (camera_s_fmt busy dev f))\<rparr>
      \<and> snd (snd (camera_s_fmt busy dev f)) = snd (camera_try_fmt f)
      \<and> (pixelformat (pix (format (fst (snd (camera_s_fmt busy dev f))))) = V4L2_PIX_FMT_MJPEG
          \<or> pixelformat (pix (format (fst (snd (camera_s_fmt busy dev f))))) = V4L2_PIX_FMT_YUYV)
      \<and> 160 \<le> width (pix (format (fst (snd (camera_s_fmt busy dev f)))))
      \<and> width (pix (format (fst (snd (camera_s_fmt busy dev f))))) \<le> 1280
      \<and> 16 dvd unat (width (pix (format (fst (snd (camera_s_fmt busy dev f))))))
      \<and> 120 \<le> height (pix (format (fst (snd (camera_s_fmt busy dev f)))))
      \<and> height (pix (format (fst (snd (camera_s_fmt busy dev f))))) \<le> 720
      \<and> 2 dvd unat (height (pix (format (fst (snd (camera_s_fmt busy dev f))))))
      \<and> field (pix (format (fst (snd (camera_s_fmt busy dev f))))) = V4L2_FIELD_NONE
      \<and> colorspace (pix (format (fst (snd (camera_s_fmt busy dev f))))) = V4L2_COLORSPACE_SRGB)
   \<and> (busy (queue dev) \<longrightarrow> camera_s_fmt busy dev f = (- EBUSY, dev, f))
   \<and> (fst (camera_s_fmt busy dev f) = 0 \<or> fst (camera_s_fmt busy dev f) = - EBUSY)
   \<and> fst (camera_s_fmt busy dev f) \<noteq> - EINVAL
   \<and> (fst (camera_s_fmt busy dev f) = - EBUSY) = busy (queue dev)"
proof (cases "busy (queue dev)")
  case True
  then show ?thesis
    by (simp add: s_fmt_busy EBUSY_def EINVAL_def)
next
  case False
  then show ?thesis
    using try_fmt_valid [of f] by (simp add: s_fmt_not_busy EBUSY_def EINVAL_def)
qed

theorem set_format_fails_only_busy_witness:
  "\<not> vb2_is_busy (queue probed_device)
   \<and> fst (camera_s_fmt vb2_is_busy probed_device (request 100000 0 0)) = 0
   \<and> width (pix (format (fst (snd (camera_s_fmt vb2_is_busy probed_device (request 100000 0 0))))))
       = 1280
   \<and> height (pix (format (fst (snd (camera_s_fmt vb2_is_busy probed_device (request 100000 0 0))))))
       = 120
   \<and> pixelformat (pix (format (fst (snd (camera_s_fmt vb2_is_busy probed_device
        (request 100000 0 0)))))) = V4L2_PIX_FMT_MJPEG"
proof -
  have nb: "\<not> vb2_is_busy (queue probed_device)"
    by (simp add: vb2_is_busy_def probed_device_def)
  have w: "width (pix (snd (camera_try_fmt (request 100000 0 0)))) = 1280"
    by (simp add: try_fmt_width request_def clamp_def ALIGN_def)
  have h: "height (pix (snd (camera_try_fmt (request 100000 0 0)))) = 120"
    by (simp add: try_fmt_height request_def clamp_def ALIGN_def)
  have p: "pixelformat (pix (snd (camera_try_fmt (request 100000 0 0)))) = V4L2_PIX_FMT_MJPEG"
    by (simp add: try_fmt_pixelformat request_def V4L2_PIX_FMT_YUYV_def v4l2_fourcc_def)
  show ?thesis
    using nb w h p
      set_format_fails_only_busy [of vb2_is_busy probed_device "request 100000 0 0"]
    by simp
qed

end
